theory Spec2Isabelle
  imports Main
begin

section \<open>Objects, values and outcomes\<close>

text \<open>
  The flyweight tree keeps all its state on plain record objects of a configuration tree
  and slides a small number of \<open>FlyweightTreeNode\<close> wrappers over them. Both kinds of
  object are compared by identity in the source (\<open>indexOf\<close>, \<open>_held = this\<close>), so the
  model keeps an explicit store: a record object is named by a \<open>rid\<close>, a wrapper by a
  \<open>wid\<close>, and the fields of each are looked up in the state. JavaScript has no dangling
  reference, so both stores are total.
\<close>

type_synonym rid = nat
type_synonym wid = nat

datatype objref = RecordRef rid | NodeRef wid | ManagerRef

text \<open>
  JavaScript values, as far as the source looks at them. Numbers that are neither an
  integer nor NaN are all truthy and are left out.
\<close>

datatype jsval =
    JUndefined | JNull | JBool bool | JNum int | JNaN | JStr string | JObj objref

text \<open>The coercion \<open>!!value\<close>.\<close>

fun truthy :: "jsval \<Rightarrow> bool" where
  "truthy JUndefined = False"
| "truthy JNull = False"
| "truthy (JBool b) = b"
| "truthy (JNum n) = (n \<noteq> 0)"
| "truthy JNaN = False"
| "truthy (JStr s) = (s \<noteq> [])"
| "truthy (JObj r) = True"

section \<open>The data model\<close>

text \<open>
  A record of the configuration tree. An absent property is \<open>None\<close>; \<open>_parent\<close>,
  \<open>_rendered\<close>, \<open>_childrenRendered\<close> and \<open>_held\<close> lose their underscore.
\<close>

record tree_record =
  node_id :: "string option"
  label :: "string option"
  template :: "string option"
  expanded :: "bool option"
  isLeaf :: bool
  children :: "rid list option"
  parent :: "rid option"
  rendered :: bool
  childrenRendered :: bool
  held :: "wid option"

text \<open>
  A wrapper: \<open>_node\<close> (which \<open>_slideTo\<close> also stores as \<open>_stateProxy\<close>) and the values
  its own attribute store \<open>_state\<close> keeps for the attributes that pass through the proxy.
\<close>

record fw_node =
  node :: "rid option"
  state_template :: "string option"
  state_label :: "string option"
  state_id :: "string option"

text \<open>
  What the source asks of the DOM and of the dynamic loader, in the order it asks. The
  first argument of a DOM request is the selector given to \<open>Y.one\<close>, which is taken to
  find its element.
\<close>

datatype effect =
    ReplaceClass string string string
  | SetContent string string
  | InvokeLoader wid

record state =
  records :: "rid \<Rightarrow> tree_record"
  nodes :: "wid \<Rightarrow> fw_node"
  pool :: "wid list"
  allocated :: nat
  dynamicLoader :: bool
  guids :: nat
  effects :: "effect list"

datatype error = TypeError

text \<open>
  A call returns a value, throws, or is \<open>Unfinished\<close>: the recursion ran out of fuel, or
  a \<open>while\<close> loop of the source never ends. An exception undoes nothing, so \<open>Throws\<close>
  carries the state the program is in when it is thrown.
\<close>

datatype 'a outcome = Returns 'a | Throws error state | Unfinished

text \<open>
  The class names are constants of the enclosing module and \<open>Lang.sub\<close> and \<open>Y.guid\<close>
  belong to the framework; none is defined in the sources, so they are parameters.
\<close>

record host =
  CNAME_NODE :: string
  CNAME_CHILDREN :: string
  CNAME_COLLAPSED :: string
  CNAME_EXPANDED :: string
  CNAME_NOCHILDREN :: string
  CNAME_FIRSTCHILD :: string
  CNAME_LASTCHILD :: string
  CNAME_LOADING :: string
  Lang_sub :: "string \<Rightarrow> (string \<rightharpoonup> jsval) \<Rightarrow> string"
  guid :: "nat \<Rightarrow> string"

definition TEMPLATE :: string where
  \<open>TEMPLATE = ''<div id="{id}" class="{cname_node}"><div class="content">{label}</div><div class="{cname_children}">{children}</div></div>''\<close>

section \<open>The manager's pool\<close>

definition slideTo :: "wid \<Rightarrow> rid \<Rightarrow> state \<Rightarrow> state" where
  "slideTo w r st = st\<lparr>nodes := (nodes st)(w := (nodes st w)\<lparr>node := Some r\<rparr>)\<rparr>"

definition fresh_node :: fw_node where
  "fresh_node = \<lparr>node = None, state_template = None, state_label = Some [], state_id = None\<rparr>"

text \<open>
  Modelled from the spec: \<open>_poolFetch\<close> of the manager, whose file is not among the
  sources. A held record gives its pinned wrapper unchanged; otherwise a wrapper is popped
  from the free list, or allocated when the list is empty, and bound to the record.
\<close>

definition poolFetch :: "rid \<Rightarrow> state \<Rightarrow> wid \<times> state" where
  "poolFetch r st =
     (case held (records st r) of
        Some w \<Rightarrow> (w, st)
      | None \<Rightarrow>
          (case pool st of
             [] \<Rightarrow>
               (let w = allocated st
                in (w, slideTo w r (st\<lparr>nodes := (nodes st)(w := fresh_node),
                                       allocated := Suc w\<rparr>)))
           | w # ws \<Rightarrow> (w, slideTo w r (st\<lparr>pool := ws\<rparr>))))"

text \<open>
  Modelled from the spec: \<open>_poolReturn\<close> of the manager. Nothing happens when the
  wrapper's bound record is held; otherwise the wrapper is unbound and pushed back on the
  free list. The manager does not defend against a second return.
\<close>

definition poolReturn :: "wid \<Rightarrow> state \<Rightarrow> state" where
  "poolReturn w st =
     (if (case node (nodes st w) of None \<Rightarrow> False
          | Some r \<Rightarrow> (case held (records st r) of None \<Rightarrow> False | Some h \<Rightarrow> True))
      then st
      else st\<lparr>nodes := (nodes st)(w := (nodes st w)\<lparr>node := None\<rparr>), pool := w # pool st\<rparr>)"

section \<open>Navigation\<close>

text \<open>\<open>Array.prototype.indexOf\<close>: the first position holding the value, or \<open>-1\<close>.\<close>

fun indexOf :: "'a list \<Rightarrow> 'a \<Rightarrow> int" where
  "indexOf [] x = - 1"
| "indexOf (y # ys) x =
     (if y = x then 0 else (let i = indexOf ys x in if i < 0 then - 1 else i + 1))"

text \<open>\<open>(parent && parent.children) || []\<close>\<close>

definition siblings_of :: "state \<Rightarrow> rid \<Rightarrow> rid list" where
  "siblings_of st r =
     (case parent (records st r) of
        None \<Rightarrow> []
      | Some p \<Rightarrow> (case children (records st p) of None \<Rightarrow> [] | Some cs \<Rightarrow> cs))"

definition getParent :: "wid \<Rightarrow> state \<Rightarrow> (wid option \<times> state) outcome" where
  "getParent w st =
     (case node (nodes st w) of
        None \<Rightarrow> Throws TypeError st
      | Some r \<Rightarrow>
          (case parent (records st r) of
             None \<Rightarrow> Returns (None, st)
           | Some p \<Rightarrow> (case poolFetch p st of (pw, st') \<Rightarrow> Returns (Some pw, st'))))"

text \<open>
  The array holds record objects and \<open>indexOf\<close> is given \<open>this\<close>, the wrapper. An index
  equal to the length passes the guard and reads \<open>undefined\<close>, which the manager cannot
  fetch.
\<close>

definition getNextSibling :: "wid \<Rightarrow> state \<Rightarrow> (wid option \<times> state) outcome" where
  "getNextSibling w st =
     (case node (nodes st w) of
        None \<Rightarrow> Throws TypeError st
      | Some r \<Rightarrow>
          (let siblings = siblings_of st r;
               index = indexOf (map RecordRef siblings) (NodeRef w) + 1
           in if index = 0 \<or> index > int (length siblings) then Returns (None, st)
              else if index < int (length siblings)
              then (case poolFetch (siblings ! nat index) st of
                      (sw, st') \<Rightarrow> Returns (Some sw, st'))
              else Throws TypeError st))"

definition getPreviousSibling :: "wid \<Rightarrow> state \<Rightarrow> (wid option \<times> state) outcome" where
  "getPreviousSibling w st =
     (case node (nodes st w) of
        None \<Rightarrow> Throws TypeError st
      | Some r \<Rightarrow>
          (let siblings = siblings_of st r;
               index = indexOf (map RecordRef siblings) (NodeRef w) - 1
           in if index < 0 then Returns (None, st)
              else if index < int (length siblings)
              then (case poolFetch (siblings ! nat index) st of
                      (sw, st') \<Rightarrow> Returns (Some sw, st'))
              else Throws TypeError st))"

section \<open>Hold and release\<close>

definition hold :: "wid \<Rightarrow> state \<Rightarrow> (wid \<times> state) outcome" where
  "hold w st =
     (case node (nodes st w) of
        None \<Rightarrow> Throws TypeError st
      | Some r \<Rightarrow>
          Returns (w, st\<lparr>records := (records st)(r := (records st r)\<lparr>held := Some w\<rparr>)\<rparr>))"

definition release :: "wid \<Rightarrow> state \<Rightarrow> (wid \<times> state) outcome" where
  "release w st =
     (case node (nodes st w) of
        None \<Rightarrow> Throws TypeError st
      | Some r \<Rightarrow>
          Returns (w, poolReturn w
            (st\<lparr>records := (records st)(r := (records st r)\<lparr>held := None\<rparr>)\<rparr>)))"

section \<open>The depth attribute\<close>

text \<open>
  The getter's loop \<open>while (node._parent)\<close>. It does not end on a cycle of parents, so
  it is a partial function: \<open>None\<close> stands for the loop that never returns.
\<close>

partial_function (option) depth_walk :: "(rid \<Rightarrow> tree_record) \<Rightarrow> int \<Rightarrow> rid \<Rightarrow> int option" where
  "depth_walk recs count n =
     (case parent (recs n) of
        None \<Rightarrow> Some count
      | Some p \<Rightarrow> depth_walk recs (count + 1) p)"

declare depth_walk.simps [code]

definition depth_getter :: "state \<Rightarrow> wid \<Rightarrow> int outcome" where
  "depth_getter st w =
     (case node (nodes st w) of
        None \<Rightarrow> Throws TypeError st
      | Some r \<Rightarrow>
          (case depth_walk (records st) 0 r of
             None \<Rightarrow> Unfinished
           | Some count \<Rightarrow> Returns (count - 1)))"

section \<open>Iterating over the children\<close>

text \<open>
  What one run of \<open>forSomeChildren\<close> itself does, in order: the wrapper fetched for a
  child, the call of \<open>fn\<close> with its result, the wrapper given back. The source returns
  nothing; the list is kept beside the state to speak about the order of the calls.
\<close>

datatype call = Fetched rid wid | Invoked wid nat jsval | Returned wid

text \<open>
  \<open>YArray.some\<close> over the array the record held when the iteration began; a callback
  that changes that array in place is outside the model. The callback gets the wrapper,
  the index and the array, and works on the state and on the variables \<open>'e\<close> of its
  closure. An exception of the callback leaves the loop at once, before the wrapper is
  given back.
\<close>

fun some_loop ::
  "(wid \<Rightarrow> nat \<Rightarrow> rid list \<Rightarrow> 'e \<times> state \<Rightarrow> (jsval \<times> 'e \<times> state) outcome) \<Rightarrow>
   rid list \<Rightarrow> nat \<Rightarrow> rid list \<Rightarrow> 'e \<times> state \<Rightarrow> (call list \<times> 'e \<times> state) outcome" where
  "some_loop fn array index [] (env, st) = Returns ([], env, st)"
| "some_loop fn array index (n # rest) (env, st) =
     (case poolFetch n st of
        (child, st1) \<Rightarrow>
          (case fn child index array (env, st1) of
             Throws e ts \<Rightarrow> Throws e ts
           | Unfinished \<Rightarrow> Unfinished
           | Returns (ret, env2, st2) \<Rightarrow>
               (let st3 = poolReturn child st2;
                    step = [Fetched n child, Invoked child index ret, Returned child]
                in if truthy ret then Returns (step, env2, st3)
                   else (case some_loop fn array (Suc index) rest (env2, st3) of
                           Throws e ts \<Rightarrow> Throws e ts
                         | Unfinished \<Rightarrow> Unfinished
                         | Returns (calls, env', st') \<Rightarrow> Returns (step @ calls, env', st')))))"

definition forSomeChildren ::
  "(wid \<Rightarrow> nat \<Rightarrow> rid list \<Rightarrow> 'e \<times> state \<Rightarrow> (jsval \<times> 'e \<times> state) outcome) \<Rightarrow>
   wid \<Rightarrow> 'e \<times> state \<Rightarrow> (call list \<times> 'e \<times> state) outcome" where
  "forSomeChildren fn w es =
     (case node (nodes (snd es) w) of
        None \<Rightarrow> Throws TypeError (snd es)
      | Some n \<Rightarrow>
          (case children (records (snd es) n) of
             None \<Rightarrow> Returns ([], es)
           | Some cs \<Rightarrow> some_loop fn cs 0 cs es))"

section \<open>Attributes\<close>

definition expandedGetter :: "state \<Rightarrow> wid \<Rightarrow> bool outcome" where
  "expandedGetter st w =
     (case node (nodes st w) of
        None \<Rightarrow> Throws TypeError st
      | Some n \<Rightarrow> Returns (expanded (records st n) \<noteq> Some False))"

text \<open>
  \<open>_getStateVal\<close> for an attribute that does not bypass the proxy: the record's own
  property when it has one, the wrapper's stored value otherwise.
\<close>

definition getStateVal ::
  "state \<Rightarrow> wid \<Rightarrow> (tree_record \<Rightarrow> string option) \<Rightarrow> (fw_node \<Rightarrow> string option) \<Rightarrow> string option" where
  "getStateVal st w own stored =
     (case node (nodes st w) of
        None \<Rightarrow> stored (nodes st w)
      | Some n \<Rightarrow>
          (case own (records st n) of
             Some v \<Rightarrow> Some v
           | None \<Rightarrow> stored (nodes st w)))"

text \<open>
  \<open>getAttrs()\<close> over the attributes of \<open>ATTRS\<close>, each through its getter. An undefined
  value is an absent key.
\<close>

definition getAttrs :: "state \<Rightarrow> wid \<Rightarrow> (string \<rightharpoonup> jsval) outcome" where
  "getAttrs st w =
     (case depth_getter st w of
        Throws e ts \<Rightarrow> Throws e ts
      | Unfinished \<Rightarrow> Unfinished
      | Returns d \<Rightarrow>
          (case expandedGetter st w of
             Throws e ts \<Rightarrow> Throws e ts
           | Unfinished \<Rightarrow> Unfinished
           | Returns ex \<Rightarrow>
               Returns (Map.empty
                 (''root'' \<mapsto> JObj ManagerRef,
                  ''template'' := map_option JStr (getStateVal st w template state_template),
                  ''label'' := map_option JStr (getStateVal st w label state_label),
                  ''id'' := map_option JStr (getStateVal st w node_id state_id),
                  ''depth'' \<mapsto> JNum d,
                  ''expanded'' \<mapsto> JBool ex))))"

section \<open>Rendering\<close>

text \<open>\<open>Array.prototype.join\<close>\<close>

fun join :: "string \<Rightarrow> string list \<Rightarrow> string" where
  "join sep [] = []"
| "join sep [x] = x"
| "join sep (x # y # ys) = x @ sep @ join sep (y # ys)"

text \<open>An identifier inside a selector: string concatenation prints an absent one.\<close>

definition id_text :: "string option \<Rightarrow> string" where
  "id_text i = (case i of None \<Rightarrow> ''undefined'' | Some s \<Rightarrow> s)"

definition set_rendered :: "rid \<Rightarrow> state \<Rightarrow> state" where
  "set_rendered n st = st\<lparr>records := (records st)(n := (records st n)\<lparr>rendered := True\<rparr>)\<rparr>"

definition set_childrenRendered :: "rid \<Rightarrow> state \<Rightarrow> state" where
  "set_childrenRendered n st =
     st\<lparr>records := (records st)(n := (records st n)\<lparr>childrenRendered := True\<rparr>)\<rparr>"

text \<open>
  The callback both \<open>_getHTML\<close> and \<open>_renderChildren\<close> hand to \<open>forSomeChildren\<close>:
  \<open>s += fwNode._getHTML(index, array.length, depth + 1)\<close>, which returns nothing.
\<close>

definition append_html ::
  "(wid \<Rightarrow> int \<Rightarrow> int \<Rightarrow> state \<Rightarrow> (string \<times> state) outcome) \<Rightarrow>
   wid \<Rightarrow> nat \<Rightarrow> rid list \<Rightarrow> string \<times> state \<Rightarrow> (jsval \<times> string \<times> state) outcome" where
  "append_html render fwNode index array sst =
     (case render fwNode (int index) (int (length array)) (snd sst) of
        Throws e ts \<Rightarrow> Throws e ts
      | Unfinished \<Rightarrow> Unfinished
      | Returns (m, st') \<Rightarrow> Returns (JUndefined, fst sst @ m, st'))"

text \<open>
  \<open>_getHTML\<close> of a direct instance of the class, whose static \<open>TEMPLATE\<close> ends the search
  for a template. The recursion follows the children through the store, so it is bounded
  by fuel.
\<close>

fun getHTML :: "host \<Rightarrow> nat \<Rightarrow> wid \<Rightarrow> int \<Rightarrow> int \<Rightarrow> int \<Rightarrow> state \<Rightarrow> (string \<times> state) outcome" where
  "getHTML H 0 w index nSiblings depth st = Unfinished"
| "getHTML H (Suc fuel) w index nSiblings depth st =
     (case node (nodes st w) of
        None \<Rightarrow> Throws TypeError st
      | Some n \<Rightarrow>
          (case getAttrs st w of
             Throws e ts \<Rightarrow> Throws e ts
           | Unfinished \<Rightarrow> Unfinished
           | Returns attrs \<Rightarrow>
               (let templ = (case template (records st n) of
                               None \<Rightarrow> TEMPLATE
                             | Some t \<Rightarrow> if t = [] then TEMPLATE else t);
                    childCount = (case children (records st n) of
                                    None \<Rightarrow> 0
                                  | Some cs \<Rightarrow> length cs);
                    st1 = set_rendered n st
                in case
                     (if childCount \<noteq> 0 then
                        (if (case attrs ''expanded'' of None \<Rightarrow> False | Some v \<Rightarrow> truthy v) then
                           (case forSomeChildren
                                   (append_html (\<lambda>fwNode i k st'.
                                      getHTML H fuel fwNode i k (depth + 1) st'))
                                   w ([], set_childrenRendered n st1) of
                              Throws e ts \<Rightarrow> Throws e ts
                            | Unfinished \<Rightarrow> Unfinished
                            | Returns (calls, s, st2) \<Rightarrow>
                                Returns (s, [CNAME_NODE H, CNAME_EXPANDED H], st2))
                         else Returns ([], [CNAME_NODE H, CNAME_COLLAPSED H], st1))
                      else
                        (if dynamicLoader st1 \<and> \<not> isLeaf (records st1 n)
                         then Returns ([], [CNAME_NODE H, CNAME_COLLAPSED H], st1)
                         else Returns ([], [CNAME_NODE H, CNAME_NOCHILDREN H], st1)))
                   of
                     Throws e ts \<Rightarrow> Throws e ts
                   | Unfinished \<Rightarrow> Unfinished
                   | Returns (s, nodeClasses, st2) \<Rightarrow>
                       (let nodeClasses1 =
                              nodeClasses @ (if index = 0 then [CNAME_FIRSTCHILD H] else []);
                            nodeClasses2 =
                              nodeClasses1 @
                              (if index = nSiblings - 1 then [CNAME_LASTCHILD H] else [])
                        in Returns
                             (Lang_sub H templ
                                (attrs(''children'' \<mapsto> JStr s,
                                       ''cname_node'' \<mapsto> JStr (join '' '' nodeClasses2),
                                       ''cname_children'' \<mapsto> JStr (CNAME_CHILDREN H))),
                              st2)))))"

definition renderChildren :: "host \<Rightarrow> nat \<Rightarrow> wid \<Rightarrow> state \<Rightarrow> state outcome" where
  "renderChildren H fuel w st =
     (case node (nodes st w) of
        None \<Rightarrow> Throws TypeError st
      | Some n \<Rightarrow>
          (case depth_getter st w of
             Throws e ts \<Rightarrow> Throws e ts
           | Unfinished \<Rightarrow> Unfinished
           | Returns depth \<Rightarrow>
               (case forSomeChildren
                       (append_html (\<lambda>fwNode i k st'. getHTML H fuel fwNode i k (depth + 1) st'))
                       w ([], set_childrenRendered n st) of
                  Throws e ts \<Rightarrow> Throws e ts
                | Unfinished \<Rightarrow> Unfinished
                | Returns (calls, s, st2) \<Rightarrow>
                    Returns (st2\<lparr>effects := effects st2 @
                      [SetContent
                         (''#'' @ id_text (node_id (records st2 n)) @ '' .'' @ CNAME_CHILDREN H)
                         s]\<rparr>))))"

section \<open>Dynamic loading\<close>

text \<open>
  The loader is supplied by the caller and answers later, through \<open>_dynamicLoadReturn\<close>;
  calling it is recorded as an effect. Without a loader the call is a call of
  \<open>undefined\<close>, thrown once the class has been replaced.
\<close>

definition loadDynamic :: "host \<Rightarrow> wid \<Rightarrow> state \<Rightarrow> state outcome" where
  "loadDynamic H w st =
     (if dynamicLoader st
      then Returns (st\<lparr>effects := effects st @
             [ReplaceClass (''#'' @ id_text (getStateVal st w node_id state_id))
                (CNAME_COLLAPSED H) (CNAME_LOADING H),
              InvokeLoader w]\<rparr>)
      else Throws TypeError (st\<lparr>effects := effects st @
             [ReplaceClass (''#'' @ id_text (getStateVal st w node_id state_id))
                (CNAME_COLLAPSED H) (CNAME_LOADING H)]\<rparr>))"

fun each_record :: "(rid \<Rightarrow> state \<Rightarrow> state outcome) \<Rightarrow> rid list \<Rightarrow> state \<Rightarrow> state outcome" where
  "each_record f [] st = Returns st"
| "each_record f (c # cs) st =
     (case f c st of
        Throws e ts \<Rightarrow> Throws e ts
      | Unfinished \<Rightarrow> Unfinished
      | Returns st' \<Rightarrow> each_record f cs st')"

text \<open>
  Modelled from the spec: what \<open>_initNodes\<close> of the manager does to one child of the
  record it walks. It sets the back-reference, gives an identifier when there is none,
  and marks a leaf when the child has no children and no loader is configured.
\<close>

definition init_record :: "host \<Rightarrow> rid \<Rightarrow> rid \<Rightarrow> state \<Rightarrow> state" where
  "init_record H p c st =
     (let r = records st c;
          fresh = (node_id r = None);
          r' = r\<lparr>parent := Some p,
                 node_id := (if fresh then Some (guid H (guids st)) else node_id r),
                 isLeaf := (isLeaf r \<or>
                   ((case children r of None \<Rightarrow> True | Some cs \<Rightarrow> cs = []) \<and> \<not> dynamicLoader st))\<rparr>
      in st\<lparr>records := (records st)(c := r'),
             guids := (if fresh then Suc (guids st) else guids st)\<rparr>)"

text \<open>
  Modelled from the spec: \<open>_initNodes\<close> of the manager, which walks the children of a
  record and theirs in turn.
\<close>

fun initNodes :: "host \<Rightarrow> nat \<Rightarrow> rid \<Rightarrow> state \<Rightarrow> state outcome" where
  "initNodes H 0 p st = Unfinished"
| "initNodes H (Suc fuel) p st =
     each_record (\<lambda>c st1. initNodes H fuel c (init_record H p c st1))
       (case children (records st p) of None \<Rightarrow> [] | Some cs \<Rightarrow> cs) st"

text \<open>
  What the loader resumes with: an array of child records, or a value that is falsy. An
  empty array is an array.
\<close>

datatype response = Falsy | Loaded "rid list"

definition dynamicLoadReturn :: "host \<Rightarrow> nat \<Rightarrow> wid \<Rightarrow> response \<Rightarrow> state \<Rightarrow> state outcome" where
  "dynamicLoadReturn H fuel w resp st =
     (case node (nodes st w) of
        None \<Rightarrow> Throws TypeError st
      | Some n \<Rightarrow>
          (case
             (case resp of
                Loaded cs \<Rightarrow>
                  (case initNodes H fuel n
                          (st\<lparr>records := (records st)(n := (records st n)\<lparr>children := Some cs\<rparr>)\<rparr>) of
                     Throws e ts \<Rightarrow> Throws e ts
                   | Unfinished \<Rightarrow> Unfinished
                   | Returns st1 \<Rightarrow> renderChildren H fuel w st1)
              | Falsy \<Rightarrow>
                  Returns (st\<lparr>records := (records st)(n := (records st n)\<lparr>isLeaf := True\<rparr>)\<rparr>))
           of
             Throws e ts \<Rightarrow> Throws e ts
           | Unfinished \<Rightarrow> Unfinished
           | Returns st2 \<Rightarrow>
               Returns (st2\<lparr>effects := effects st2 @
                 [ReplaceClass (''#'' @ id_text (node_id (records st2 n))) (CNAME_LOADING H)
                    (if isLeaf (records st2 n) then CNAME_NOCHILDREN H else CNAME_EXPANDED H)]\<rparr>)))"

section \<open>The expanded attribute\<close>

definition has_children :: "tree_record \<Rightarrow> bool" where
  "has_children r = (case children r of None \<Rightarrow> False | Some cs \<Rightarrow> cs \<noteq> [])"

definition expandedSetter :: "host \<Rightarrow> nat \<Rightarrow> wid \<Rightarrow> jsval \<Rightarrow> state \<Rightarrow> state outcome" where
  "expandedSetter H fuel w v st =
     (case node (nodes st w) of
        None \<Rightarrow> Throws TypeError st
      | Some n \<Rightarrow>
          (let el = ''#'' @ id_text (node_id (records st n));
               value = truthy v;
               st1 = st\<lparr>records := (records st)(n := (records st n)\<lparr>expanded := Some value\<rparr>)\<rparr>
           in if dynamicLoader st1 \<and> \<not> isLeaf (records st1 n) \<and> \<not> has_children (records st1 n)
              then loadDynamic H w st1
              else if has_children (records st1 n) then
                (if value then
                   (case (if \<not> childrenRendered (records st1 n)
                          then renderChildren H fuel w st1 else Returns st1) of
                      Throws e ts \<Rightarrow> Throws e ts
                    | Unfinished \<Rightarrow> Unfinished
                    | Returns st2 \<Rightarrow>
                        Returns (st2\<lparr>effects := effects st2 @
                          [ReplaceClass el (CNAME_COLLAPSED H) (CNAME_EXPANDED H)]\<rparr>))
                 else Returns (st1\<lparr>effects := effects st1 @
                        [ReplaceClass el (CNAME_EXPANDED H) (CNAME_COLLAPSED H)]\<rparr>))
              else Returns st1))"

section \<open>Notions the properties are stated with\<close>

definition kids :: "tree_record \<Rightarrow> rid list" where
  "kids r = (case children r of None \<Rightarrow> [] | Some cs \<Rightarrow> cs)"

text \<open>The branch of \<open>_getHTML\<close> that descends into the children.\<close>

definition recursed :: "tree_record \<Rightarrow> bool" where
  "recursed r \<longleftrightarrow> has_children r \<and> expanded r \<noteq> Some False"

text \<open>The template \<open>_getHTML\<close> settles on: the record's own unless it is falsy.\<close>

definition template_of :: "tree_record \<Rightarrow> string" where
  "template_of r = (case template r of None \<Rightarrow> TEMPLATE | Some t \<Rightarrow> if t = [] then TEMPLATE else t)"

text \<open>
  The concatenated markup of the children in stored order, said directly: each child is
  rendered through the wrapper the manager fetches for it, at its index among \<open>count\<close>
  siblings, and the wrapper is given back before the next child.
\<close>

fun children_html ::
  "(wid \<Rightarrow> int \<Rightarrow> int \<Rightarrow> state \<Rightarrow> (string \<times> state) outcome) \<Rightarrow>
   nat \<Rightarrow> nat \<Rightarrow> rid list \<Rightarrow> state \<Rightarrow> (string \<times> state) outcome" where
  "children_html render count index [] st = Returns ([], st)"
| "children_html render count index (c # cs) st =
     (case poolFetch c st of
        (cw, st1) \<Rightarrow>
          (case render cw (int index) (int count) st1 of
             Throws e ts \<Rightarrow> Throws e ts
           | Unfinished \<Rightarrow> Unfinished
           | Returns (m, st2) \<Rightarrow>
               (case children_html render count (Suc index) cs (poolReturn cw st2) of
                  Throws e ts \<Rightarrow> Throws e ts
                | Unfinished \<Rightarrow> Unfinished
                | Returns (ms, st3) \<Rightarrow> Returns (m @ ms, st3))))"








text \<open>A record without its two render flags.\<close>

definition unflag :: "tree_record \<Rightarrow> tree_record" where
  "unflag r = r\<lparr>rendered := False, childrenRendered := False\<rparr>"

text \<open>
  Between two states nothing but render flags of records changed (wrappers and the pool
  aside), and no flag was cleared.
\<close>

definition flags_only :: "state \<Rightarrow> state \<Rightarrow> bool" where
  "flags_only st st' \<longleftrightarrow>
     dynamicLoader st' = dynamicLoader st \<and> effects st' = effects st \<and> guids st' = guids st \<and>
     (\<forall>r. unflag (records st' r) = unflag (records st r) \<and>
          (rendered (records st r) \<longrightarrow> rendered (records st' r)) \<and>
          (childrenRendered (records st r) \<longrightarrow> childrenRendered (records st' r)))"

text \<open>
  The wrapper pinned to a held record is bound to that record, is not on the free list
  and has been allocated.
\<close>

definition held_ok :: "state \<Rightarrow> bool" where
  "held_ok st \<longleftrightarrow>
     (\<forall>r hw. held (records st r) = Some hw \<longrightarrow>
        node (nodes st hw) = Some r \<and> hw \<notin> set (pool st) \<and> hw < allocated st)"

text \<open>
  The records form a tree of finite height: \<open>rank\<close> falls from a record to its children,
  \<open>lvl\<close> falls from a record to its parent.
\<close>

definition ranked :: "(rid \<Rightarrow> nat) \<Rightarrow> state \<Rightarrow> bool" where
  "ranked rank st \<longleftrightarrow>
     (\<forall>r cs c. children (records st r) = Some cs \<longrightarrow> c \<in> set cs \<longrightarrow> rank c < rank r)"

definition leveled :: "(rid \<Rightarrow> nat) \<Rightarrow> state \<Rightarrow> bool" where
  "leveled lvl st \<longleftrightarrow> (\<forall>r p. parent (records st r) = Some p \<longrightarrow> lvl p < lvl r)"

definition sound :: "(rid \<Rightarrow> nat) \<Rightarrow> (rid \<Rightarrow> nat) \<Rightarrow> state \<Rightarrow> bool" where
  "sound rank lvl st \<longleftrightarrow> held_ok st \<and> ranked rank st \<and> leveled lvl st"

text \<open>The setter's test for dynamic loading.\<close>

definition eligible :: "state \<Rightarrow> rid \<Rightarrow> bool" where
  "eligible st r \<longleftrightarrow>
     dynamicLoader st \<and> \<not> isLeaf (records st r) \<and> \<not> has_children (records st r)"

definition write_expanded :: "rid \<Rightarrow> bool \<Rightarrow> state \<Rightarrow> state" where
  "write_expanded r b st = st\<lparr>records := (records st)(r := (records st r)\<lparr>expanded := Some b\<rparr>)\<rparr>"

text \<open>A run of sets of the expanded attribute, each through some wrapper.\<close>

fun set_each :: "host \<Rightarrow> nat \<Rightarrow> (wid \<times> jsval) list \<Rightarrow> state \<Rightarrow> state outcome" where
  "set_each H fuel [] st = Returns st"
| "set_each H fuel ((w, v) # rest) st =
     (case expandedSetter H fuel w v st of
        Throws e ts \<Rightarrow> Throws e ts
      | Unfinished \<Rightarrow> Unfinished
      | Returns st' \<Rightarrow> set_each H fuel rest st')"

text \<open>Reading an outcome.\<close>

definition and_then :: "'a outcome \<Rightarrow> ('a \<Rightarrow> 'b outcome) \<Rightarrow> 'b outcome" where
  "and_then x f = (case x of Returns v \<Rightarrow> f v | Throws e ts \<Rightarrow> Throws e ts | Unfinished \<Rightarrow> Unfinished)"

definition effects_of :: "state outcome \<Rightarrow> effect list option" where
  "effects_of x = (case x of Returns s \<Rightarrow> Some (effects s) | Throws e ts \<Rightarrow> None | Unfinished \<Rightarrow> None)"

definition record_of :: "rid \<Rightarrow> state outcome \<Rightarrow> tree_record option" where
  "record_of r x = (case x of Returns s \<Rightarrow> Some (records s r) | Throws e ts \<Rightarrow> None | Unfinished \<Rightarrow> None)"

definition html_of :: "(string \<times> state) outcome \<Rightarrow> string option" where
  "html_of x = (case x of Returns p \<Rightarrow> Some (fst p) | Throws e ts \<Rightarrow> None | Unfinished \<Rightarrow> None)"



section \<open>Sample trees\<close>

definition blank_record :: tree_record where
  "blank_record = \<lparr>node_id = None, label = None, template = None, expanded = None,
     isLeaf = False, children = None, parent = None, rendered = False,
     childrenRendered = False, held = None\<rparr>"

text \<open>
  Record 0 is the manager's tree object, record 1 the root below it with the children
  2, 5 and 6; the chain goes on from 2 to 3 to 4. Record 7 stands alone. Wrapper \<open>k\<close> is
  bound to record \<open>k\<close>.
\<close>

definition family_records :: "rid \<Rightarrow> tree_record" where
  "family_records =
     (\<lambda>r. blank_record)
       (0 := blank_record\<lparr>node_id := Some ''tree'', children := Some [1]\<rparr>,
        1 := blank_record\<lparr>node_id := Some ''root'', parent := Some 0, children := Some [2, 5, 6]\<rparr>,
        2 := blank_record\<lparr>node_id := Some ''a'', parent := Some 1, children := Some [3]\<rparr>,
        3 := blank_record\<lparr>node_id := Some ''b'', parent := Some 2, children := Some [4]\<rparr>,
        4 := blank_record\<lparr>node_id := Some ''c'', parent := Some 3\<rparr>,
        5 := blank_record\<lparr>node_id := Some ''y'', parent := Some 1, expanded := Some False\<rparr>,
        6 := blank_record\<lparr>node_id := Some ''z'', parent := Some 1\<rparr>)"

definition family :: state where
  "family = \<lparr>records = family_records,
     nodes = (\<lambda>w. if w < 8 then fresh_node\<lparr>node := Some w\<rparr> else fresh_node),
     pool = [], allocated = 8, dynamicLoader = False, guids = 0, effects = []\<rparr>"

text \<open>A tree with a loader: record 1 has no children yet, wrapper 0 is bound to it.\<close>

definition lazy :: state where
  "lazy = \<lparr>records =
       (\<lambda>r. blank_record)
         (0 := blank_record\<lparr>node_id := Some ''tree'', children := Some [1]\<rparr>,
          1 := blank_record\<lparr>node_id := Some ''n1'', parent := Some 0\<rparr>),
     nodes = (\<lambda>w. fresh_node)(0 := fresh_node\<lparr>node := Some 1\<rparr>),
     pool = [], allocated = 1, dynamicLoader = True, guids = 0, effects = []\<rparr>"

definition text_of :: "jsval option \<Rightarrow> string" where
  "text_of v = (case v of Some (JStr s) \<Rightarrow> s | _ \<Rightarrow> [])"

definition sample_host :: host where
  "sample_host = \<lparr>CNAME_NODE = ''node'', CNAME_CHILDREN = ''children'',
     CNAME_COLLAPSED = ''collapsed'', CNAME_EXPANDED = ''expanded'',
     CNAME_NOCHILDREN = ''no-children'', CNAME_FIRSTCHILD = ''first-child'',
     CNAME_LASTCHILD = ''last-child'', CNAME_LOADING = ''loading'',
     Lang_sub = (\<lambda>templ attrs. ''<'' @ text_of (attrs ''id'') @ '' '' @
                   text_of (attrs ''cname_node'') @ ''>'' @ text_of (attrs ''children'') @ ''</>''),
     guid = (\<lambda>n. replicate (Suc n) CHR ''g'')\<rparr>"

text \<open>A callback that counts its calls and asks to stop at index 1.\<close>

definition stop_at_one :: "wid \<Rightarrow> nat \<Rightarrow> rid list \<Rightarrow> nat \<times> state \<Rightarrow> (jsval \<times> nat \<times> state) outcome" where
  "stop_at_one child index array es = Returns (JBool (index = 1), Suc (fst es), snd es)"


section \<open>Helper facts: the depth walk and the sibling lookup\<close>

lemma depth_walk_top: "parent (recs n) = None \<Longrightarrow> depth_walk recs count n = Some count"
  by (subst depth_walk.simps) simp

lemma depth_walk_up:
  "parent (recs n) = Some p \<Longrightarrow> depth_walk recs count n = depth_walk recs (count + 1) p"
  by (subst depth_walk.simps) simp

lemma depth_walk_returns:
  assumes "leveled lvl st"
  shows "\<exists>d. depth_walk (records st) count n = Some d"
proof (induction "lvl n" arbitrary: n count rule: less_induct)
  case less
  show ?case
  proof (cases "parent (records st n)")
    case None
    then show ?thesis by (subst depth_walk.simps) simp
  next
    case (Some p)
    with assms have "lvl p < lvl n" by (simp add: leveled_def)
    from less [OF this] obtain d where "depth_walk (records st) (count + 1) p = Some d"
      by blast
    with Some show ?thesis by (subst depth_walk.simps) simp
  qed
qed

lemma depth_getter_returns:
  assumes "leveled lvl st" and "node (nodes st w) = Some n"
  shows "\<exists>d. depth_getter st w = Returns d"
  using depth_walk_returns [OF assms(1), of 0 n] assms(2)
  by (auto simp: depth_getter_def)

lemma indexOf_absent: "x \<notin> set ys \<Longrightarrow> indexOf ys x = - 1"
  by (induction ys) auto

lemma indexOf_wrapper: "indexOf (map RecordRef rs) (NodeRef w) = - 1"
  by (rule indexOf_absent) auto

lemma getNextSibling_bound:
  "node (nodes st w) = Some r \<Longrightarrow> getNextSibling w st = Returns (None, st)"
  by (simp add: getNextSibling_def indexOf_wrapper)

lemma getPreviousSibling_bound:
  "node (nodes st w) = Some r \<Longrightarrow> getPreviousSibling w st = Returns (None, st)"
  by (simp add: getPreviousSibling_def indexOf_wrapper)

section \<open>Helper facts: what an iteration preserves\<close>

lemma some_loop_rel:
  assumes refl: "\<And>s. R s s"
    and trans: "\<And>a b c. R a b \<Longrightarrow> R b c \<Longrightarrow> R a c"
    and fetch: "\<And>n s. R s (snd (poolFetch n s))"
    and return: "\<And>x s. R s (poolReturn x s)"
    and fn: "\<And>child i arr env s ret env' s'.
               fn child i arr (env, s) = Returns (ret, env', s') \<Longrightarrow> R s s'"
    and run: "some_loop fn array index cs (env, st) = Returns (calls, env', st')"
  shows "R st st'"
  using run
proof (induction cs arbitrary: index env st calls)
  case Nil
  then show ?case by (simp add: refl)
next
  case (Cons n rest)
  obtain child st1 where f: "poolFetch n st = (child, st1)" by (cases "poolFetch n st")
  from Cons.prems f obtain ret env2 st2 where
    c: "fn child index array (env, st1) = Returns (ret, env2, st2)"
    by (auto split: outcome.splits)
  have a: "R st st1" using fetch [of st n] f by simp
  have b: "R st1 st2" using fn [OF c] .
  have d: "R st2 (poolReturn child st2)" by (rule return)
  have upto: "R st (poolReturn child st2)" using a b d trans by blast
  show ?case
  proof (cases "truthy ret")
    case True
    with Cons.prems f c have "st' = poolReturn child st2" by simp
    with upto show ?thesis by simp
  next
    case False
    with Cons.prems f c obtain calls2 where
      "some_loop fn array (Suc index) rest (env2, poolReturn child st2) = Returns (calls2, env', st')"
      by (auto split: outcome.splits)
    from Cons.IH [OF this] upto trans show ?thesis by blast
  qed
qed

lemma forSomeChildren_rel:
  assumes refl: "\<And>s. R s s"
    and trans: "\<And>a b c. R a b \<Longrightarrow> R b c \<Longrightarrow> R a c"
    and fetch: "\<And>n s. R s (snd (poolFetch n s))"
    and return: "\<And>x s. R s (poolReturn x s)"
    and fn: "\<And>child i arr env s ret env' s'.
               fn child i arr (env, s) = Returns (ret, env', s') \<Longrightarrow> R s s'"
    and run: "forSomeChildren fn w (env, st) = Returns (calls, env', st')"
  shows "R st st'"
proof (cases "node (nodes st w)")
  case None
  with run show ?thesis by (simp add: forSomeChildren_def)
next
  case (Some n)
  show ?thesis
  proof (cases "children (records st n)")
    case None
    with Some run show ?thesis by (simp add: forSomeChildren_def refl)
  next
    case (Some cs)
    with \<open>node (nodes st w) = Some n\<close> run
    have "some_loop fn cs 0 cs (env, st) = Returns (calls, env', st')"
      by (simp add: forSomeChildren_def)
    then show ?thesis
      by (rule some_loop_rel [where R = R and fn = fn, rotated -1])
        (rule refl, erule trans, assumption, rule fetch, rule return, erule fn)
  qed
qed

lemma append_html_apply:
  "append_html render fwNode index array (s, st) =
     (case render fwNode (int index) (int (length array)) st of
        Throws e ts \<Rightarrow> Throws e ts
      | Unfinished \<Rightarrow> Unfinished
      | Returns (m, st') \<Rightarrow> Returns (JUndefined, s @ m, st'))"
  by (simp add: append_html_def split: outcome.splits)

lemma getHTML_rel:
  assumes refl: "\<And>s. R s s"
    and trans: "\<And>a b c. R a b \<Longrightarrow> R b c \<Longrightarrow> R a c"
    and fetch: "\<And>n s. R s (snd (poolFetch n s))"
    and return: "\<And>x s. R s (poolReturn x s)"
    and flag1: "\<And>n s. R s (set_rendered n s)"
    and flag2: "\<And>n s. R s (set_childrenRendered n s)"
    and run: "getHTML H fuel w index nSiblings depth st = Returns (html, st')"
  shows "R st st'"
  using run
proof (induction fuel arbitrary: w index nSiblings depth st html st')
  case 0
  then show ?case by simp
next
  case (Suc fuel)
  from Suc.prems obtain n where n: "node (nodes st w) = Some n"
    by (auto split: option.splits)
  from Suc.prems n obtain attrs where attrs: "getAttrs st w = Returns attrs"
    by (auto split: outcome.splits)
  let ?cb = "append_html (\<lambda>fwNode i k st'. getHTML H fuel fwNode i k (depth + 1) st')"
  have cb: "\<And>child i arr env s ret env' s'.
      ?cb child i arr (env, s) = Returns (ret, env', s') \<Longrightarrow> R s s'"
    by (auto simp: append_html_def split: outcome.splits dest: Suc.IH)
  let ?st1 = "set_rendered n st"
  have r1: "R st ?st1" by (rule flag1)
  have r2: "R st (set_childrenRendered n ?st1)" using flag1 flag2 trans by blast
  show ?case
  proof (cases "(case children (records st n) of None \<Rightarrow> 0 | Some cs \<Rightarrow> length cs) \<noteq> 0
      \<and> (case attrs ''expanded'' of None \<Rightarrow> False | Some v \<Rightarrow> truthy v)")
    case True
    with Suc.prems n attrs obtain calls s where
      loop: "forSomeChildren ?cb w ([], set_childrenRendered n ?st1) = Returns (calls, s, st')"
      by (auto simp: Let_def split: outcome.splits)
    have "R (set_childrenRendered n ?st1) st'"
      using loop
      by (rule forSomeChildren_rel [where R = R and fn = ?cb, rotated -1])
        (rule refl, erule trans, assumption, rule fetch, rule return, erule cb)
    with r2 trans show ?thesis by blast
  next
    case False
    with Suc.prems n attrs have "st' = ?st1"
      by (auto simp: Let_def split: if_splits)
    with r1 show ?thesis by simp
  qed
qed

lemma flags_only_refl: "flags_only s s"
  by (simp add: flags_only_def)

lemma unflag_fields:
  assumes "unflag x = unflag y"
  shows "node_id x = node_id y" and "label x = label y" and "template x = template y"
    and "expanded x = expanded y" and "isLeaf x = isLeaf y" and "children x = children y"
    and "parent x = parent y" and "held x = held y"
proof -
  have "node_id (unflag x) = node_id (unflag y)" using assms by simp
  then show "node_id x = node_id y" by (simp add: unflag_def)
  have "label (unflag x) = label (unflag y)" using assms by simp
  then show "label x = label y" by (simp add: unflag_def)
  have "template (unflag x) = template (unflag y)" using assms by simp
  then show "template x = template y" by (simp add: unflag_def)
  have "expanded (unflag x) = expanded (unflag y)" using assms by simp
  then show "expanded x = expanded y" by (simp add: unflag_def)
  have "isLeaf (unflag x) = isLeaf (unflag y)" using assms by simp
  then show "isLeaf x = isLeaf y" by (simp add: unflag_def)
  have "children (unflag x) = children (unflag y)" using assms by simp
  then show "children x = children y" by (simp add: unflag_def)
  have "parent (unflag x) = parent (unflag y)" using assms by simp
  then show "parent x = parent y" by (simp add: unflag_def)
  have "held (unflag x) = held (unflag y)" using assms by simp
  then show "held x = held y" by (simp add: unflag_def)
qed

lemma unflag_eq:
  "unflag x = unflag y \<Longrightarrow>
     x = y\<lparr>rendered := rendered x, childrenRendered := childrenRendered x\<rparr>"
  by (cases x, cases y) (simp add: unflag_def)

lemma flags_only_unflag: "flags_only a b \<Longrightarrow> unflag (records b r) = unflag (records a r)"
  by (simp add: flags_only_def)

lemmas flags_only_fields = unflag_fields [OF flags_only_unflag]

lemma flags_only_trans: "flags_only a b \<Longrightarrow> flags_only b c \<Longrightarrow> flags_only a c"
  by (simp add: flags_only_def)

lemma flags_only_fetch: "flags_only s (snd (poolFetch n s))"
  by (simp add: flags_only_def poolFetch_def slideTo_def Let_def split: option.splits list.splits)

lemma flags_only_return: "flags_only s (poolReturn x s)"
  by (simp add: flags_only_def poolReturn_def)

lemma flags_only_rendered: "flags_only s (set_rendered n s)"
  by (simp add: flags_only_def set_rendered_def unflag_def)

lemma flags_only_childrenRendered: "flags_only s (set_childrenRendered n s)"
  by (simp add: flags_only_def set_childrenRendered_def unflag_def)

lemma getHTML_flags_only:
  "getHTML H fuel w index nSiblings depth st = Returns (html, st') \<Longrightarrow> flags_only st st'"
  by (erule getHTML_rel [where R = flags_only, rotated -1])
    (rule flags_only_refl, erule flags_only_trans, assumption, rule flags_only_fetch,
     rule flags_only_return, rule flags_only_rendered, rule flags_only_childrenRendered)

lemma forSomeChildren_html_flags:
  assumes "forSomeChildren
      (append_html (\<lambda>fwNode i k st'. getHTML H fuel fwNode i k d st')) w (acc, st)
        = Returns (calls, s, st')"
  shows "flags_only st st'"
  using assms
  by (rule forSomeChildren_rel [where R = flags_only, rotated -1])
    (rule flags_only_refl, erule flags_only_trans, assumption, rule flags_only_fetch,
     rule flags_only_return,
     auto simp: append_html_apply split: outcome.splits dest: getHTML_flags_only)

lemma renderChildren_records:
  assumes "renderChildren H fuel w st = Returns st'"
  shows "unflag (records st' x) = unflag (records st x)"
proof -
  from assms obtain n where n: "node (nodes st w) = Some n"
    by (auto simp: renderChildren_def split: option.splits)
  from assms n obtain d where d: "depth_getter st w = Returns d"
    by (auto simp: renderChildren_def split: outcome.splits)
  from assms n d obtain calls s st2 where
    loop: "forSomeChildren (append_html (\<lambda>fwNode i k st'. getHTML H fuel fwNode i k (d + 1) st'))
             w ([], set_childrenRendered n st) = Returns (calls, s, st2)"
    and st': "records st' = records st2"
    by (auto simp: renderChildren_def split: outcome.splits)
  from forSomeChildren_html_flags [OF loop] flags_only_childrenRendered [of st n]
  have "flags_only st st2" by (rule flags_only_trans [rotated])
  with st' show ?thesis by (simp add: flags_only_def)
qed

lemma held_ok_fetch:
  assumes "held_ok s"
  shows "held_ok (snd (poolFetch n s))"
proof (cases "held (records s n)")
  case (Some hw)
  with assms show ?thesis by (simp add: poolFetch_def)
next
  case None
  show ?thesis
  proof (cases "pool s")
    case Nil
    with None assms show ?thesis
      by (auto simp: poolFetch_def slideTo_def Let_def held_ok_def less_Suc_eq)
  next
    case (Cons x xs)
    with None assms show ?thesis
      by (auto simp: poolFetch_def slideTo_def held_ok_def)
  qed
qed

lemma fetch_bound:
  assumes "held_ok s"
  shows "node (nodes (snd (poolFetch n s)) (fst (poolFetch n s))) = Some n"
  using assms
  by (auto simp: poolFetch_def slideTo_def Let_def held_ok_def split: option.splits list.splits)

lemma held_ok_return:
  assumes "held_ok s"
  shows "held_ok (poolReturn x s)"
  using assms
  by (auto simp: poolReturn_def held_ok_def split: option.splits)

lemma held_ok_rendered: "held_ok s \<Longrightarrow> held_ok (set_rendered n s)"
  by (simp add: held_ok_def set_rendered_def)

lemma held_ok_childrenRendered: "held_ok s \<Longrightarrow> held_ok (set_childrenRendered n s)"
  by (simp add: held_ok_def set_childrenRendered_def)

lemma getHTML_held_ok:
  assumes "getHTML H fuel w index nSiblings depth st = Returns (html, st')" and "held_ok st"
  shows "held_ok st'"
proof -
  have "held_ok st \<longrightarrow> held_ok st'"
    using assms(1)
    by (rule getHTML_rel [where R = "\<lambda>a b. held_ok a \<longrightarrow> held_ok b", rotated -1])
      (simp_all add: held_ok_fetch held_ok_return held_ok_rendered held_ok_childrenRendered)
  with assms(2) show ?thesis by simp
qed

lemma flags_only_ranked: "flags_only a b \<Longrightarrow> ranked rank a \<Longrightarrow> ranked rank b"
  by (simp add: ranked_def flags_only_fields)

lemma flags_only_leveled: "flags_only a b \<Longrightarrow> leveled lvl a \<Longrightarrow> leveled lvl b"
  by (simp add: leveled_def flags_only_fields)

lemma sound_fetch: "sound rank lvl s \<Longrightarrow> sound rank lvl (snd (poolFetch n s))"
  using flags_only_fetch [of s n]
  by (auto simp: sound_def held_ok_fetch flags_only_ranked flags_only_leveled)

lemma sound_return: "sound rank lvl s \<Longrightarrow> sound rank lvl (poolReturn x s)"
  using flags_only_return [of s x]
  by (auto simp: sound_def held_ok_return flags_only_ranked flags_only_leveled)

lemma sound_rendered: "sound rank lvl s \<Longrightarrow> sound rank lvl (set_rendered n s)"
  using flags_only_rendered [of s n]
  by (auto simp: sound_def held_ok_rendered flags_only_ranked flags_only_leveled)

lemma sound_childrenRendered: "sound rank lvl s \<Longrightarrow> sound rank lvl (set_childrenRendered n s)"
  using flags_only_childrenRendered [of s n]
  by (auto simp: sound_def held_ok_childrenRendered flags_only_ranked flags_only_leveled)

lemma getHTML_sound:
  assumes "getHTML H fuel w index nSiblings depth st = Returns (html, st')"
    and "sound rank lvl st"
  shows "sound rank lvl st'"
  using assms getHTML_flags_only [OF assms(1)]
  by (auto simp: sound_def getHTML_held_ok flags_only_ranked flags_only_leveled)

section \<open>Helper facts: rendering returns on a tree of finite height\<close>

lemma getAttrs_returns:
  assumes "leveled lvl st" and "node (nodes st w) = Some n"
  shows "\<exists>attrs. getAttrs st w = Returns attrs \<and>
           attrs ''expanded'' = Some (JBool (expanded (records st n) \<noteq> Some False))"
  using depth_getter_returns [OF assms] assms(2)
  by (auto simp: getAttrs_def expandedGetter_def)

lemma getAttrs_expanded:
  assumes "getAttrs st w = Returns attrs" and "node (nodes st w) = Some r"
  shows "attrs ''expanded'' = Some (JBool (expanded (records st r) \<noteq> Some False))"
  using assms by (auto simp: getAttrs_def expandedGetter_def split: outcome.splits)

lemma some_loop_returns:
  assumes "I st"
    and step: "\<And>c i env s. c \<in> set cs \<Longrightarrow> I s \<Longrightarrow>
        \<exists>ret env2 s2. fn (fst (poolFetch c s)) i array (env, snd (poolFetch c s))
                         = Returns (ret, env2, s2) \<and> I (poolReturn (fst (poolFetch c s)) s2)"
  shows "\<exists>calls env' st'. some_loop fn array index cs (env, st) = Returns (calls, env', st')
           \<and> I st'"
  using assms
proof (induction cs arbitrary: index env st)
  case Nil
  then show ?case by simp
next
  case (Cons c rest)
  obtain child st1 where f: "poolFetch c st = (child, st1)" by (cases "poolFetch c st")
  from Cons.prems(2) [of c st index env] Cons.prems(1) f obtain ret env2 s2 where
    r: "fn child index array (env, st1) = Returns (ret, env2, s2)" and i: "I (poolReturn child s2)"
    by auto
  show ?case
  proof (cases "truthy ret")
    case True
    with f r i show ?thesis by simp
  next
    case False
    have "\<exists>calls env' st'. some_loop fn array (Suc index) rest (env2, poolReturn child s2)
        = Returns (calls, env', st') \<and> I st'"
      by (rule Cons.IH [OF i]) (rule Cons.prems(2), simp_all)
    with f r False show ?thesis by auto
  qed
qed


lemma flagged_bound:
  "node (nodes (set_childrenRendered n (set_rendered n st)) w) = node (nodes st w)"
  by (simp add: set_childrenRendered_def set_rendered_def)

lemma flagged_children:
  "children (records (set_childrenRendered n (set_rendered m st)) r) = children (records st r)"
  by (simp add: set_childrenRendered_def set_rendered_def)

lemma children_loop_returns:
  assumes snd: "sound rank lvl st"
    and below: "\<And>c. c \<in> set cs \<Longrightarrow> rank c < fuel"
    and render: "\<And>w r i k d s. sound rank lvl s \<Longrightarrow> node (nodes s w) = Some r \<Longrightarrow>
        rank r < fuel \<Longrightarrow> \<exists>html s'. getHTML H fuel w i k d s = Returns (html, s')"
  shows "\<exists>calls s st'.
           some_loop (append_html (\<lambda>fwNode i k st'. getHTML H fuel fwNode i k depth st'))
             array index cs (acc, st) = Returns (calls, s, st') \<and> sound rank lvl st'"
proof (rule some_loop_returns [where I = "sound rank lvl", OF snd])
  fix c i env s
  assume c: "c \<in> set cs" and s: "sound rank lvl s"
  let ?cw = "fst (poolFetch c s)" and ?s1 = "snd (poolFetch c s)"
  have s1: "sound rank lvl ?s1" using s by (rule sound_fetch)
  have b: "node (nodes ?s1 ?cw) = Some c" using s by (simp add: fetch_bound sound_def)
  from render [OF s1 b below [OF c]] obtain html s' where
    g: "getHTML H fuel ?cw (int i) (int (length array)) depth ?s1 = Returns (html, s')"
    by blast
  have "sound rank lvl (poolReturn ?cw s')"
    using getHTML_sound [OF g s1] by (rule sound_return)
  with g show "\<exists>ret env2 s2.
      append_html (\<lambda>fwNode i k st'. getHTML H fuel fwNode i k depth st') ?cw i array (env, ?s1)
        = Returns (ret, env2, s2) \<and> sound rank lvl (poolReturn ?cw s2)"
    by (simp add: append_html_def)
qed

lemma getHTML_returns:
  assumes "sound rank lvl st" and "node (nodes st w) = Some r" and "rank r < fuel"
  shows "\<exists>html st'. getHTML H fuel w index nSiblings depth st = Returns (html, st')"
  using assms
proof (induction fuel arbitrary: w r index nSiblings depth st)
  case 0
  then show ?case by simp
next
  case (Suc fuel)
  from Suc.prems(1) have lv: "leveled lvl st" by (simp add: sound_def)
  from getAttrs_returns [OF lv Suc.prems(2)] obtain attrs where
    attrs: "getAttrs st w = Returns attrs"
    and ex: "attrs ''expanded'' = Some (JBool (expanded (records st r) \<noteq> Some False))"
    by blast
  let ?st2 = "set_childrenRendered r (set_rendered r st)"
  let ?cb = "append_html (\<lambda>fwNode i k st'. getHTML H fuel fwNode i k (depth + 1) st')"
  show ?case
  proof (cases "children (records st r)")
    case None
    with Suc.prems(2) attrs show ?thesis by (simp add: Let_def)
  next
    case (Some cs)
    have s2: "sound rank lvl ?st2"
      using Suc.prems(1) by (simp add: sound_rendered sound_childrenRendered)
    have below: "rank c < fuel" if "c \<in> set cs" for c
    proof -
      from Suc.prems(1) Some that have "rank c < rank r" by (auto simp: sound_def ranked_def)
      with Suc.prems(3) show ?thesis by simp
    qed
    have "\<exists>calls s st'. some_loop ?cb cs 0 cs ([], ?st2) = Returns (calls, s, st')
        \<and> sound rank lvl st'"
      by (rule children_loop_returns [OF s2 below]) (auto intro: Suc.IH)
    then obtain calls s st' where
      "some_loop ?cb cs 0 cs ([], ?st2) = Returns (calls, s, st')" by blast
    then have "forSomeChildren ?cb w ([], ?st2) = Returns (calls, s, st')"
      using Suc.prems(2) Some by (simp add: forSomeChildren_def flagged_bound flagged_children)
    with Suc.prems(2) attrs Some show ?thesis by (simp add: Let_def)
  qed
qed

lemma renderChildren_returns:
  assumes "sound rank lvl st" and "node (nodes st w) = Some r" and "rank r \<le> fuel"
  shows "\<exists>st'. renderChildren H fuel w st = Returns st'"
proof -
  from assms(1) have lv: "leveled lvl st" by (simp add: sound_def)
  from depth_getter_returns [OF lv assms(2)] obtain d where d: "depth_getter st w = Returns d"
    by blast
  let ?st1 = "set_childrenRendered r st"
  let ?cb = "append_html (\<lambda>fwNode i k st'. getHTML H fuel fwNode i k (d + 1) st')"
  have s1: "sound rank lvl ?st1" using assms(1) by (rule sound_childrenRendered)
  show ?thesis
  proof (cases "children (records st r)")
    case None
    with assms(2) d show ?thesis
      by (simp add: renderChildren_def forSomeChildren_def set_childrenRendered_def)
  next
    case (Some cs)
    have below: "rank c < fuel" if "c \<in> set cs" for c
    proof -
      from assms(1) Some that have "rank c < rank r" by (auto simp: sound_def ranked_def)
      with assms(3) show ?thesis by simp
    qed
    have "\<exists>calls s st'. some_loop ?cb cs 0 cs ([], ?st1) = Returns (calls, s, st')
        \<and> sound rank lvl st'"
      by (rule children_loop_returns [OF s1 below]) (auto intro: getHTML_returns)
    then obtain calls s st' where
      "some_loop ?cb cs 0 cs ([], ?st1) = Returns (calls, s, st')" by blast
    then have "forSomeChildren ?cb w ([], ?st1) = Returns (calls, s, st')"
      using assms(2) Some by (simp add: forSomeChildren_def set_childrenRendered_def)
    with assms(2) d show ?thesis by (simp add: renderChildren_def)
  qed
qed

section \<open>Helper facts: the shape of a render and of an iteration\<close>

lemma append_loop_concat:
  assumes "some_loop (append_html render) array index cs (acc, st) = Returns (calls, s, st')"
  shows "\<exists>ms. children_html render (length array) index cs st = Returns (ms, st') \<and> s = acc @ ms"
  using assms
proof (induction cs arbitrary: index acc st calls)
  case Nil
  then show ?case by simp
next
  case (Cons c cs)
  obtain cw st1 where f: "poolFetch c st = (cw, st1)" by (cases "poolFetch c st")
  from Cons.prems f obtain m st2 where
    r: "render cw (int index) (int (length array)) st1 = Returns (m, st2)"
    by (auto simp: append_html_apply split: outcome.splits)
  with Cons.prems f obtain calls2 where
    "some_loop (append_html render) array (Suc index) cs (acc @ m, poolReturn cw st2)
       = Returns (calls2, s, st')"
    by (auto simp: append_html_apply split: outcome.splits)
  from Cons.IH [OF this] obtain ms where
    "children_html render (length array) (Suc index) cs (poolReturn cw st2) = Returns (ms, st')"
    and "s = (acc @ m) @ ms" by blast
  with f r show ?case by simp
qed

lemma getHTML_unfold:
  assumes run: "getHTML H fuel w index nSiblings depth st = Returns (html, st')"
    and bound: "node (nodes st w) = Some r"
  shows "\<exists>attrs classes s.
           getAttrs st w = Returns attrs \<and>
           html = Lang_sub H (template_of (records st r))
                    (attrs(''children'' \<mapsto> JStr s, ''cname_node'' \<mapsto> JStr classes,
                           ''cname_children'' \<mapsto> JStr (CNAME_CHILDREN H))) \<and>
           (if recursed (records st r)
            then \<exists>calls. forSomeChildren
                   (append_html (\<lambda>fwNode i k st'. getHTML H (fuel - 1) fwNode i k (depth + 1) st'))
                   w ([], set_childrenRendered r (set_rendered r st)) = Returns (calls, s, st')
            else s = [] \<and> st' = set_rendered r st)"
proof (cases fuel)
  case 0
  with run show ?thesis by simp
next
  case (Suc k)
  from run Suc bound obtain attrs where attrs: "getAttrs st w = Returns attrs"
    by (auto split: outcome.splits)
  note ex = getAttrs_expanded [OF attrs bound]
  show ?thesis
  proof (cases "recursed (records st r)")
    case True
    then have "(case children (records st r) of None \<Rightarrow> 0 | Some cs \<Rightarrow> length cs) \<noteq> 0"
      and "expanded (records st r) \<noteq> Some False"
      by (auto simp: recursed_def has_children_def split: option.splits)
    with run Suc bound attrs ex True show ?thesis
      by (auto simp: Let_def template_of_def split: outcome.splits)
  next
    case False
    then have "(case children (records st r) of None \<Rightarrow> 0 | Some cs \<Rightarrow> length cs) = 0
        \<or> expanded (records st r) = Some False"
      by (auto simp: recursed_def has_children_def split: option.splits)
    with run Suc bound attrs ex False show ?thesis
      by (auto simp: Let_def template_of_def split: if_splits)
  qed
qed






section \<open>Helper facts: the setter\<close>

lemma write_expanded_simps:
  "nodes (write_expanded r b st) = nodes st"
  "pool (write_expanded r b st) = pool st"
  "allocated (write_expanded r b st) = allocated st"
  "dynamicLoader (write_expanded r b st) = dynamicLoader st"
  "effects (write_expanded r b st) = effects st"
  "expanded (records (write_expanded r b st) r) = Some b"
  "isLeaf (records (write_expanded r b st) x) = isLeaf (records st x)"
  "children (records (write_expanded r b st) x) = children (records st x)"
  "parent (records (write_expanded r b st) x) = parent (records st x)"
  "held (records (write_expanded r b st) x) = held (records st x)"
  "node_id (records (write_expanded r b st) x) = node_id (records st x)"
  "childrenRendered (records (write_expanded r b st) x) = childrenRendered (records st x)"
  by (simp_all add: write_expanded_def)

lemma expandedSetter_bound:
  assumes "node (nodes st w) = Some r"
  shows "expandedSetter H fuel w v st =
     (if eligible st r then loadDynamic H w (write_expanded r (truthy v) st)
      else if has_children (records st r) then
        (if truthy v then
           (case (if \<not> childrenRendered (records st r)
                  then renderChildren H fuel w (write_expanded r (truthy v) st)
                  else Returns (write_expanded r (truthy v) st)) of
              Throws e ts \<Rightarrow> Throws e ts
            | Unfinished \<Rightarrow> Unfinished
            | Returns st2 \<Rightarrow>
                Returns (st2\<lparr>effects := effects st2 @
                  [ReplaceClass (''#'' @ id_text (node_id (records st r)))
                     (CNAME_COLLAPSED H) (CNAME_EXPANDED H)]\<rparr>))
         else Returns ((write_expanded r (truthy v) st)\<lparr>effects := effects st @
                [ReplaceClass (''#'' @ id_text (node_id (records st r)))
                   (CNAME_EXPANDED H) (CNAME_COLLAPSED H)]\<rparr>))
      else Returns (write_expanded r (truthy v) st))"
  using assms
  by (simp add: expandedSetter_def eligible_def Let_def write_expanded_def has_children_def
      cong: outcome.case_cong)

lemma expandedSetter_loading:
  assumes "node (nodes st w) = Some r" and "eligible st r"
  shows "expandedSetter H fuel w v st =
           Returns ((write_expanded r (truthy v) st)\<lparr>effects := effects st @
             [ReplaceClass (''#'' @ id_text (getStateVal st w node_id state_id))
                (CNAME_COLLAPSED H) (CNAME_LOADING H),
              InvokeLoader w]\<rparr>)"
  using assms
  by (simp add: expandedSetter_bound loadDynamic_def write_expanded_simps eligible_def
      getStateVal_def write_expanded_def split: option.splits)

lemma leaf_set:
  assumes "node (nodes s w) = Some r" and "isLeaf (records s r)"
    and "\<not> has_children (records s r)"
  shows "expandedSetter H fuel w v s = Returns (write_expanded r (truthy v) s)"
  using assms by (simp add: expandedSetter_bound eligible_def)

lemma leaf_set_each:
  assumes "\<forall>x \<in> set sets. node (nodes s (fst x)) = Some r" and "isLeaf (records s r)"
    and "\<not> has_children (records s r)"
  shows "\<exists>s2. set_each H fuel sets s = Returns s2 \<and> effects s2 = effects s \<and>
              isLeaf (records s2 r)"
  using assms
proof (induction sets arbitrary: s)
  case Nil
  then show ?case by simp
next
  case (Cons x sets)
  obtain w v where x: "x = (w, v)" by (cases x)
  let ?s1 = "write_expanded r (truthy v) s"
  from Cons.prems x have step: "expandedSetter H fuel w v s = Returns ?s1"
    by (intro leaf_set) auto
  have "\<exists>s2. set_each H fuel sets ?s1 = Returns s2 \<and> effects s2 = effects ?s1 \<and>
          isLeaf (records s2 r)"
    using Cons.prems
    by (intro Cons.IH) (auto simp: write_expanded_simps has_children_def)
  with x step show ?case by (simp add: write_expanded_simps)
qed

section \<open>Helper facts: the sample trees\<close>

lemma family_sound: "sound (\<lambda>r. 7 - r) (\<lambda>r. r) family"
  by (auto simp: sound_def held_ok_def ranked_def leveled_def family_def family_records_def
      blank_record_def split: if_splits)

text \<open>The markup of the sample family under the sample host, computed by the model.\<close>

lemma family_markup:
  "html_of (getHTML sample_host 7 1 0 1 0 family) =
     Some ''<root node expanded first-child last-child><a node expanded first-child><b node expanded first-child last-child><c node no-children first-child last-child></></></><y node no-children></><z node no-children last-child></></>''"
  by code_simp

section \<open>The claims\<close>

text \<open>
  Claim C1. For a parent with the ordered children \<open>[x, y, z]\<close>, \<open>getPreviousSibling\<close> on
  the wrapper bound to \<open>x\<close> and \<open>getNextSibling\<close> on the wrapper bound to \<open>z\<close> return none,
  and \<open>getNextSibling\<close> on the wrapper bound to \<open>y\<close> should return a wrapper bound to \<open>z\<close>.
  In the sample family the children of record 1 are 2, 5 and 6. The source looks the
  wrapper itself up in the array of records, never finds it, and so answers none for the
  middle child as well.
\<close>

theorem middle_child_has_no_next:
  "siblings_of family 5 = [2, 5, 6] \<and>
   getPreviousSibling 2 family = Returns (None, family) \<and>
   getNextSibling 6 family = Returns (None, family) \<and>
   getNextSibling 5 family = Returns (None, family)"
  by (simp add: getNextSibling_def getPreviousSibling_def siblings_of_def
      family_def family_records_def blank_record_def fresh_node_def)

text \<open>
  Claim C2, as amended. Setting the expanded attribute to a falsy value on a record that
  is not eligible for dynamic loading only records \<open>expanded = false\<close> and, when the
  record has children, swaps the expanded class for the collapsed one: the loader is not
  invoked and no child is rendered. (On an eligible record the setter starts the loader
  whatever the value: see the counterexample.)
\<close>

theorem collapse_without_loader:
  assumes bound: "node (nodes st w) = Some r"
    and "\<not> eligible st r" and "\<not> truthy v"
  shows "expandedSetter H fuel w v st =
           Returns ((write_expanded r False st)\<lparr>effects := effects st @
             (if has_children (records st r)
              then [ReplaceClass (''#'' @ id_text (node_id (records st r)))
                      (CNAME_EXPANDED H) (CNAME_COLLAPSED H)]
              else [])\<rparr>)"
  using assms by (simp add: expandedSetter_bound write_expanded_def)

theorem collapse_without_loader_witness:
  "node (nodes family 1) = Some 1 \<and> \<not> eligible family 1 \<and> \<not> truthy (JBool False) \<and>
   expandedSetter sample_host 0 1 (JBool False) family =
     Returns ((write_expanded 1 False family)\<lparr>effects :=
       [ReplaceClass ''#root'' ''expanded'' ''collapsed'']\<rparr>)"
proof -
  have b: "node (nodes family 1) = Some 1" by (simp add: family_def fresh_node_def)
  have e: "\<not> eligible family 1" by (simp add: eligible_def family_def)
  have t: "\<not> truthy (JBool False)" by simp
  from collapse_without_loader [OF b e t, of sample_host 0] b e show ?thesis
    by (simp add: family_def family_records_def blank_record_def has_children_def
        id_text_def sample_host_def)
qed

theorem collapse_invokes_loader_counterexample:
  "effects_of (expandedSetter sample_host 0 0 (JBool False) lazy) =
     Some [ReplaceClass ''#n1'' ''collapsed'' ''loading'', InvokeLoader 0]"
  by (simp add: effects_of_def expandedSetter_def loadDynamic_def getStateVal_def lazy_def
      blank_record_def fresh_node_def has_children_def id_text_def sample_host_def Let_def)

text \<open>
  Claim C3, as amended. When the loader resumes with a falsy value for a record without
  children, the record's \<open>isLeaf\<close> flag becomes true, the loading class is replaced by the
  no-children class, and no later run of sets of the expanded attribute on that record,
  through any wrappers bound to it, has any effect on the DOM or the loader; the record
  stays a leaf. (An empty array is not falsy: see the counterexample.)
\<close>

theorem falsy_response_makes_leaf:
  assumes bound: "node (nodes st w) = Some r" and none: "\<not> has_children (records st r)"
  shows "\<exists>st1. dynamicLoadReturn H fuel w Falsy st = Returns st1 \<and>
           isLeaf (records st1 r) \<and>
           effects st1 = effects st @
             [ReplaceClass (''#'' @ id_text (node_id (records st r)))
                (CNAME_LOADING H) (CNAME_NOCHILDREN H)] \<and>
           (\<forall>sets. (\<forall>x \<in> set sets. node (nodes st (fst x)) = Some r) \<longrightarrow>
              (\<exists>st2. set_each H fuel sets st1 = Returns st2 \<and> effects st2 = effects st1 \<and>
                     isLeaf (records st2 r)))"
proof -
  let ?st1 = "st\<lparr>records := (records st)(r := (records st r)\<lparr>isLeaf := True\<rparr>),
                 effects := effects st @
                   [ReplaceClass (''#'' @ id_text (node_id (records st r)))
                      (CNAME_LOADING H) (CNAME_NOCHILDREN H)]\<rparr>"
  have run: "dynamicLoadReturn H fuel w Falsy st = Returns ?st1"
    using bound by (simp add: dynamicLoadReturn_def)
  have leaf: "isLeaf (records ?st1 r)" by simp
  have nc: "\<not> has_children (records ?st1 r)" using none by (simp add: has_children_def)
  have "\<exists>st2. set_each H fuel sets ?st1 = Returns st2 \<and> effects st2 = effects ?st1 \<and>
          isLeaf (records st2 r)"
    if "\<forall>x \<in> set sets. node (nodes st (fst x)) = Some r" for sets
    using that by (intro leaf_set_each [OF _ leaf nc]) simp
  with run show ?thesis by simp
qed

theorem falsy_response_makes_leaf_witness:
  "node (nodes lazy 0) = Some 1 \<and> \<not> has_children (records lazy 1) \<and>
   (\<exists>st1. dynamicLoadReturn sample_host 0 0 Falsy lazy = Returns st1 \<and>
      isLeaf (records st1 1) \<and>
      effects st1 = [ReplaceClass ''#n1'' ''loading'' ''no-children''] \<and>
      (\<exists>st2. set_each sample_host 0 [(0, JBool True), (0, JNum 0)] st1 = Returns st2 \<and>
         effects st2 = effects st1 \<and> isLeaf (records st2 1)))"
proof -
  have b: "node (nodes lazy 0) = Some 1" by (simp add: lazy_def fresh_node_def)
  have n: "\<not> has_children (records lazy 1)"
    by (simp add: lazy_def has_children_def blank_record_def)
  from falsy_response_makes_leaf [OF b n, of sample_host 0] obtain st1 where
    run: "dynamicLoadReturn sample_host 0 0 Falsy lazy = Returns st1"
    and leaf: "isLeaf (records st1 1)"
    and eff: "effects st1 = effects lazy @
        [ReplaceClass (''#'' @ id_text (node_id (records lazy 1)))
           (CNAME_LOADING sample_host) (CNAME_NOCHILDREN sample_host)]"
    and later: "\<forall>sets. (\<forall>x \<in> set sets. node (nodes lazy (fst x)) = Some 1) \<longrightarrow>
        (\<exists>st2. set_each sample_host 0 sets st1 = Returns st2 \<and> effects st2 = effects st1 \<and>
               isLeaf (records st2 1))"
    by blast
  from eff have eff': "effects st1 = [ReplaceClass ''#n1'' ''loading'' ''no-children'']"
    by (simp add: lazy_def blank_record_def id_text_def sample_host_def)
  from later have "(\<forall>x \<in> set [(0, JBool True), (0, JNum 0)]. node (nodes lazy (fst x)) = Some 1) \<longrightarrow>
      (\<exists>st2. set_each sample_host 0 [(0, JBool True), (0, JNum 0)] st1 = Returns st2 \<and>
         effects st2 = effects st1 \<and> isLeaf (records st2 1))"
    by (rule spec)
  moreover have "\<forall>x \<in> set [(0::nat, JBool True), (0, JNum 0)]. node (nodes lazy (fst x)) = Some 1"
    using b by simp
  ultimately have "\<exists>st2. set_each sample_host 0 [(0, JBool True), (0, JNum 0)] st1 = Returns st2 \<and>
      effects st2 = effects st1 \<and> isLeaf (records st2 1)"
    by (rule mp)
  with b n run leaf eff' show ?thesis by blast
qed

theorem empty_array_is_not_leaf_counterexample:
  "map_option isLeaf (record_of 1
     (and_then (expandedSetter sample_host 1 0 (JBool True) lazy)
        (dynamicLoadReturn sample_host 1 0 (Loaded [])))) = Some False \<and>
   effects_of
     (and_then
        (and_then (expandedSetter sample_host 1 0 (JBool True) lazy)
           (dynamicLoadReturn sample_host 1 0 (Loaded [])))
        (expandedSetter sample_host 1 0 (JBool True))) =
     Some [ReplaceClass ''#n1'' ''collapsed'' ''loading'', InvokeLoader 0,
           SetContent ''#n1 .children'' [],
           ReplaceClass ''#n1'' ''loading'' ''expanded'',
           ReplaceClass ''#n1'' ''collapsed'' ''loading'', InvokeLoader 0]"
  by code_simp




text \<open>
  Claim C5. The markup \<open>_getHTML\<close> returns is the template with the children placeholder
  set to the concatenated markup of all the children, in stored order, exactly when the
  record has children and is expanded, and to the empty string when it is collapsed or
  has no children. On a tree of finite height the call returns when given enough fuel.
\<close>

theorem getHTML_children_placeholder:
  assumes bound: "node (nodes st w) = Some r"
  shows "(getHTML H fuel w index nSiblings depth st = Returns (html, st') \<longrightarrow>
            (\<exists>attrs classes s.
               getAttrs st w = Returns attrs \<and>
               html = Lang_sub H (template_of (records st r))
                        (attrs(''children'' \<mapsto> JStr s, ''cname_node'' \<mapsto> JStr classes,
                               ''cname_children'' \<mapsto> JStr (CNAME_CHILDREN H))) \<and>
               (if has_children (records st r) \<and> expanded (records st r) \<noteq> Some False
                then children_html (\<lambda>fwNode i k st'. getHTML H (fuel - 1) fwNode i k (depth + 1) st')
                       (length (kids (records st r))) 0 (kids (records st r))
                       (set_childrenRendered r (set_rendered r st)) = Returns (s, st')
                else s = []))) \<and>
         (sound rank lvl st \<and> rank r < fuel \<longrightarrow>
            (\<exists>html st'. getHTML H fuel w index nSiblings depth st = Returns (html, st')))"
proof (intro conjI impI)
  assume run: "getHTML H fuel w index nSiblings depth st = Returns (html, st')"
  let ?st2 = "set_childrenRendered r (set_rendered r st)"
  let ?render = "\<lambda>fwNode i k st'. getHTML H (fuel - 1) fwNode i k (depth + 1) st'"
  from getHTML_unfold [OF run bound] obtain attrs classes s where
    attrs: "getAttrs st w = Returns attrs"
    and html: "html = Lang_sub H (template_of (records st r))
                 (attrs(''children'' \<mapsto> JStr s, ''cname_node'' \<mapsto> JStr classes,
                        ''cname_children'' \<mapsto> JStr (CNAME_CHILDREN H)))"
    and body: "if recursed (records st r)
               then \<exists>calls. forSomeChildren (append_html ?render) w ([], ?st2)
                      = Returns (calls, s, st')
               else s = [] \<and> st' = set_rendered r st"
    by blast
  have "children_html ?render (length (kids (records st r))) 0 (kids (records st r)) ?st2
          = Returns (s, st')"
    if rec: "recursed (records st r)"
  proof -
    from rec obtain cs where cs: "children (records st r) = Some cs"
      by (auto simp: recursed_def has_children_def split: option.splits)
    from body rec obtain calls where
      "forSomeChildren (append_html ?render) w ([], ?st2) = Returns (calls, s, st')" by auto
    with bound cs have "some_loop (append_html ?render) cs 0 cs ([], ?st2) = Returns (calls, s, st')"
      by (simp add: forSomeChildren_def flagged_bound flagged_children)
    from append_loop_concat [OF this] cs show ?thesis by (simp add: kids_def)
  qed
  with attrs html body
  show "\<exists>attrs classes s.
          getAttrs st w = Returns attrs \<and>
          html = Lang_sub H (template_of (records st r))
                   (attrs(''children'' \<mapsto> JStr s, ''cname_node'' \<mapsto> JStr classes,
                          ''cname_children'' \<mapsto> JStr (CNAME_CHILDREN H))) \<and>
          (if has_children (records st r) \<and> expanded (records st r) \<noteq> Some False
           then children_html ?render (length (kids (records st r))) 0
                  (kids (records st r)) ?st2 = Returns (s, st')
           else s = [])"
    unfolding recursed_def [symmetric] by (cases "recursed (records st r)") auto
next
  assume "sound rank lvl st \<and> rank r < fuel"
  then show "\<exists>html st'. getHTML H fuel w index nSiblings depth st = Returns (html, st')"
    using getHTML_returns [of rank lvl st w r fuel] bound by blast
qed

theorem getHTML_children_placeholder_witness:
  "node (nodes family 1) = Some 1 \<and> sound (\<lambda>r. 7 - r) (\<lambda>r. r) family \<and>
   has_children (records family 1) \<and> expanded (records family 1) \<noteq> Some False \<and>
   (\<exists>html st' attrs classes s.
      getHTML sample_host 7 1 0 1 0 family = Returns (html, st') \<and>
      getAttrs family 1 = Returns attrs \<and>
      html = Lang_sub sample_host (template_of (records family 1))
               (attrs(''children'' \<mapsto> JStr s, ''cname_node'' \<mapsto> JStr classes,
                      ''cname_children'' \<mapsto> JStr (CNAME_CHILDREN sample_host))) \<and>
      children_html (\<lambda>fwNode i k st'. getHTML sample_host 6 fwNode i k 1 st') 3 0 [2, 5, 6]
        (set_childrenRendered 1 (set_rendered 1 family)) = Returns (s, st'))"
proof -
  have b: "node (nodes family 1) = Some 1" by (simp add: family_def fresh_node_def)
  have h: "has_children (records family 1)"
    by (simp add: has_children_def family_def family_records_def blank_record_def)
  have e: "expanded (records family 1) \<noteq> Some False"
    by (simp add: family_def family_records_def blank_record_def)
  have k: "kids (records family 1) = [2, 5, 6]"
    by (simp add: kids_def family_def family_records_def blank_record_def)
  from getHTML_children_placeholder
         [OF b, of sample_host 7 0 1 0 "[]" family "\<lambda>r. 7 - r" "\<lambda>r. r", THEN conjunct2]
    family_sound
  have "\<exists>html st'. getHTML sample_host 7 1 0 1 0 family = Returns (html, st')"
    by simp
  then obtain html st' where run: "getHTML sample_host 7 1 0 1 0 family = Returns (html, st')"
    by blast
  from getHTML_children_placeholder [OF b, of sample_host 7 0 1 0 html st'] run h e k
  have "\<exists>attrs classes s.
      getAttrs family 1 = Returns attrs \<and>
      html = Lang_sub sample_host (template_of (records family 1))
               (attrs(''children'' \<mapsto> JStr s, ''cname_node'' \<mapsto> JStr classes,
                      ''cname_children'' \<mapsto> JStr (CNAME_CHILDREN sample_host))) \<and>
      children_html (\<lambda>fwNode i k st'. getHTML sample_host 6 fwNode i k 1 st') 3 0 [2, 5, 6]
        (set_childrenRendered 1 (set_rendered 1 family)) = Returns (s, st')"
    by (simp add: numeral_3_eq_3 del: children_html.simps)
  with b h e family_sound run show ?thesis by blast
qed

text \<open>
  Claim C6. A call of \<open>_getHTML\<close> that returns has set the record's \<open>_rendered\<close> flag; the
  record's \<open>_childrenRendered\<close> flag is set exactly when the call descended into the
  children (the record has children and is expanded) and is otherwise as it was; and no
  record has any other field changed. On a tree of finite height the call returns when
  given enough fuel.
\<close>

theorem getHTML_marks_rendered:
  assumes bound: "node (nodes st w) = Some r"
  shows "(getHTML H fuel w index nSiblings depth st = Returns (html, st') \<longrightarrow>
            rendered (records st' r) \<and>
            (childrenRendered (records st' r) \<longleftrightarrow>
               childrenRendered (records st r) \<or>
               (has_children (records st r) \<and> expanded (records st r) \<noteq> Some False)) \<and>
            (\<forall>x. records st' x =
                   (records st x)\<lparr>rendered := rendered (records st' x),
                                  childrenRendered := childrenRendered (records st' x)\<rparr>)) \<and>
         (sound rank lvl st \<and> rank r < fuel \<longrightarrow>
            (\<exists>html st'. getHTML H fuel w index nSiblings depth st = Returns (html, st')))"
proof (intro conjI impI)
  assume run: "getHTML H fuel w index nSiblings depth st = Returns (html, st')"
  let ?st2 = "set_childrenRendered r (set_rendered r st)"
  from getHTML_unfold [OF run bound] obtain s where
    body: "if recursed (records st r)
           then \<exists>calls. forSomeChildren
                  (append_html (\<lambda>fwNode i k st'. getHTML H (fuel - 1) fwNode i k (depth + 1) st'))
                  w ([], ?st2) = Returns (calls, s, st')
           else s = [] \<and> st' = set_rendered r st"
    by blast
  show "rendered (records st' r)"
  proof (cases "recursed (records st r)")
    case True
    with body have "flags_only ?st2 st'" by (auto dest: forSomeChildren_html_flags)
    moreover have "rendered (records ?st2 r)"
      by (simp add: set_childrenRendered_def set_rendered_def)
    ultimately show ?thesis by (simp add: flags_only_def)
  next
    case False
    with body show ?thesis by (simp add: set_rendered_def)
  qed
  show "childrenRendered (records st' r) \<longleftrightarrow>
          childrenRendered (records st r) \<or>
          (has_children (records st r) \<and> expanded (records st r) \<noteq> Some False)"
  proof (cases "recursed (records st r)")
    case True
    with body have "flags_only ?st2 st'" by (auto dest: forSomeChildren_html_flags)
    moreover have "childrenRendered (records ?st2 r)"
      by (simp add: set_childrenRendered_def set_rendered_def)
    ultimately have "childrenRendered (records st' r)" by (simp add: flags_only_def)
    with True show ?thesis by (simp add: recursed_def)
  next
    case False
    with body have "st' = set_rendered r st" by simp
    then have "childrenRendered (records st' r) = childrenRendered (records st r)"
      by (simp add: set_rendered_def)
    with False show ?thesis by (auto simp: recursed_def)
  qed
  from getHTML_flags_only [OF run]
  show "\<forall>x. records st' x =
          (records st x)\<lparr>rendered := rendered (records st' x),
                         childrenRendered := childrenRendered (records st' x)\<rparr>"
    by (auto simp: flags_only_def intro: unflag_eq)
next
  assume "sound rank lvl st \<and> rank r < fuel"
  then show "\<exists>html st'. getHTML H fuel w index nSiblings depth st = Returns (html, st')"
    using getHTML_returns [of rank lvl st w r fuel] bound by blast
qed

theorem getHTML_marks_rendered_witness:
  "node (nodes family 1) = Some 1 \<and> sound (\<lambda>r. 7 - r) (\<lambda>r. r) family \<and>
   (\<exists>html st'.
      getHTML sample_host 7 1 0 1 0 family = Returns (html, st') \<and>
      rendered (records st' 1) \<and> childrenRendered (records st' 1) \<and>
      (\<forall>x. records st' x =
             (records family x)\<lparr>rendered := rendered (records st' x),
                                 childrenRendered := childrenRendered (records st' x)\<rparr>))"
proof -
  have b: "node (nodes family 1) = Some 1" by (simp add: family_def fresh_node_def)
  have h: "has_children (records family 1)"
    by (simp add: has_children_def family_def family_records_def blank_record_def)
  have e: "expanded (records family 1) \<noteq> Some False"
    by (simp add: family_def family_records_def blank_record_def)
  from getHTML_marks_rendered
         [OF b, of sample_host 7 0 1 0 "[]" family "\<lambda>r. 7 - r" "\<lambda>r. r", THEN conjunct2]
    family_sound
  have "\<exists>html st'. getHTML sample_host 7 1 0 1 0 family = Returns (html, st')"
    by simp
  then obtain html st' where run: "getHTML sample_host 7 1 0 1 0 family = Returns (html, st')"
    by blast
  from getHTML_marks_rendered [OF b, of sample_host 7 0 1 0 html st'] run h e
  have "rendered (records st' 1) \<and> childrenRendered (records st' 1) \<and>
      (\<forall>x. records st' x =
             (records family x)\<lparr>rendered := rendered (records st' x),
                                 childrenRendered := childrenRendered (records st' x)\<rparr>)"
    by simp
  with b family_sound run show ?thesis by blast
qed

text \<open>
  Claim C7. For a chain of records root, a, b, c linked by \<open>_parent\<close>, with the manager's
  tree object above the root, the depth attribute reports 0, 1, 2 and 3.
\<close>

theorem depth_of_chain:
  assumes "parent (records st s) = None"
    and "parent (records st root) = Some s"
    and "parent (records st a) = Some root"
    and "parent (records st b) = Some a"
    and "parent (records st c) = Some b"
    and "node (nodes st wr) = Some root"
    and "node (nodes st wa) = Some a"
    and "node (nodes st wb) = Some b"
    and "node (nodes st wc) = Some c"
  shows "depth_getter st wr = Returns 0 \<and> depth_getter st wa = Returns 1 \<and>
         depth_getter st wb = Returns 2 \<and> depth_getter st wc = Returns 3"
  using assms by (simp add: depth_getter_def depth_walk_up depth_walk_top)

theorem depth_of_chain_witness:
  "parent (records family 0) = None \<and> parent (records family 1) = Some 0 \<and>
   parent (records family 2) = Some 1 \<and> parent (records family 3) = Some 2 \<and>
   parent (records family 4) = Some 3 \<and>
   depth_getter family 1 = Returns 0 \<and> depth_getter family 2 = Returns 1 \<and>
   depth_getter family 3 = Returns 2 \<and> depth_getter family 4 = Returns 3"
  using depth_of_chain [of family 0 1 2 3 4 1 2 3 4]
  by (simp add: family_def family_records_def blank_record_def fresh_node_def)

text \<open>
  Claim C8. Absence is not an error on a bound wrapper: \<open>getParent\<close> without a parent
  returns none; \<open>getNextSibling\<close> and \<open>getPreviousSibling\<close> without a parent or without
  siblings return none; \<open>forSomeChildren\<close> on a record whose children are absent or empty
  makes no call and returns, leaving the state as it was.
\<close>

theorem absence_is_not_an_error:
  assumes bound: "node (nodes st w) = Some r"
  shows "(parent (records st r) = None \<longrightarrow> getParent w st = Returns (None, st)) \<and>
         (parent (records st r) = None \<or> siblings_of st r = [] \<or> siblings_of st r = [r] \<longrightarrow>
            getNextSibling w st = Returns (None, st) \<and>
            getPreviousSibling w st = Returns (None, st)) \<and>
         (children (records st r) = None \<or> children (records st r) = Some [] \<longrightarrow>
            forSomeChildren fn w (env, st) = Returns ([], env, st))"
  using bound
  by (auto simp: getParent_def getNextSibling_def getPreviousSibling_def indexOf_wrapper
      forSomeChildren_def)

theorem absence_is_not_an_error_witness:
  "node (nodes family 7) = Some 7 \<and> parent (records family 7) = None \<and>
   children (records family 7) = None \<and>
   getParent 7 family = Returns (None, family) \<and>
   getNextSibling 7 family = Returns (None, family) \<and>
   getPreviousSibling 7 family = Returns (None, family) \<and>
   forSomeChildren stop_at_one 7 (0, family) = Returns ([], 0, family)"
proof -
  have b: "node (nodes family 7) = Some 7" by (simp add: family_def fresh_node_def)
  have p: "parent (records family 7) = None"
    by (simp add: family_def family_records_def blank_record_def)
  have c: "children (records family 7) = None"
    by (simp add: family_def family_records_def blank_record_def)
  from absence_is_not_an_error [OF b, of stop_at_one 0] b p c show ?thesis by simp
qed

text \<open>
  Claim C9. After a set of the expanded attribute to \<open>v\<close> through a bound wrapper, the
  record's \<open>expanded\<close> field is the boolean coercion of \<open>v\<close>, whichever branch the setter
  took; on a record eligible for dynamic loading the setter returns with the field
  written and the loader invoked. On a tree of finite height the setter returns when
  given enough fuel.
\<close>

theorem expandedSetter_records_coercion:
  assumes bound: "node (nodes st w) = Some r"
  shows "(expandedSetter H fuel w v st = Returns st' \<longrightarrow>
            expanded (records st' r) = Some (truthy v)) \<and>
         (eligible st r \<longrightarrow>
            (\<exists>s. expandedSetter H fuel w v st = Returns s \<and>
                 expanded (records s r) = Some (truthy v) \<and>
                 InvokeLoader w \<in> set (effects s))) \<and>
         (sound rank lvl st \<and> rank r \<le> fuel \<longrightarrow>
            (\<exists>s. expandedSetter H fuel w v st = Returns s))"
proof (intro conjI impI)
  let ?st1 = "write_expanded r (truthy v) st"
  assume run: "expandedSetter H fuel w v st = Returns st'"
  show "expanded (records st' r) = Some (truthy v)"
  proof (cases "eligible st r")
    case True
    from expandedSetter_loading [OF bound True, of H fuel v] run
    show ?thesis by (auto simp: write_expanded_simps)
  next
    case False
    show ?thesis
    proof (cases "has_children (records st r) \<and> truthy v \<and> \<not> childrenRendered (records st r)")
      case True
      with run False have
        "(case renderChildren H fuel w ?st1 of
            Throws e ts \<Rightarrow> Throws e ts
          | Unfinished \<Rightarrow> Unfinished
          | Returns st2 \<Rightarrow>
              Returns (st2\<lparr>effects := effects st2 @
                [ReplaceClass (''#'' @ id_text (node_id (records st r)))
                   (CNAME_COLLAPSED H) (CNAME_EXPANDED H)]\<rparr>)) = Returns st'"
        by (simp add: expandedSetter_bound [OF bound])
      then obtain st2 where
        rc: "renderChildren H fuel w ?st1 = Returns st2" and same: "records st' = records st2"
        by (cases "renderChildren H fuel w ?st1") auto
      from renderChildren_records [OF rc, of r]
      have "expanded (records st2 r) = expanded (records ?st1 r)" by (rule unflag_fields(4))
      with same show ?thesis by (simp add: write_expanded_simps)
    next
      case False
      with run \<open>\<not> eligible st r\<close> have "records st' = records ?st1"
        by (auto simp: expandedSetter_bound [OF bound] split: if_splits)
      then show ?thesis by (simp add: write_expanded_simps)
    qed
  qed
next
  assume "eligible st r"
  from expandedSetter_loading [OF bound this, of H fuel v]
  show "\<exists>s. expandedSetter H fuel w v st = Returns s \<and>
          expanded (records s r) = Some (truthy v) \<and> InvokeLoader w \<in> set (effects s)"
    by (simp add: write_expanded_simps)
next
  let ?st1 = "write_expanded r (truthy v) st"
  assume a: "sound rank lvl st \<and> rank r \<le> fuel"
  have s1: "sound rank lvl ?st1"
    using a by (simp add: sound_def held_ok_def ranked_def leveled_def write_expanded_simps)
  have b1: "node (nodes ?st1 w) = Some r" using bound by (simp add: write_expanded_simps)
  from renderChildren_returns [OF s1 b1, of fuel H] a obtain st2 where
    "renderChildren H fuel w ?st1 = Returns st2" by blast
  then show "\<exists>s. expandedSetter H fuel w v st = Returns s"
    by (cases "truthy v")
      (simp_all add: expandedSetter_bound [OF bound] loadDynamic_def eligible_def
        write_expanded_simps)
qed

theorem expandedSetter_records_coercion_witness:
  "node (nodes family 1) = Some 1 \<and> sound (\<lambda>r. 7 - r) (\<lambda>r. r) family \<and>
   (\<exists>s. expandedSetter sample_host 6 1 (JNum 2) family = Returns s \<and>
        expanded (records s 1) = Some True) \<and>
   node (nodes lazy 0) = Some 1 \<and> eligible lazy 1 \<and>
   (\<exists>s. expandedSetter sample_host 0 0 JNull lazy = Returns s \<and>
        expanded (records s 1) = Some False \<and> InvokeLoader 0 \<in> set (effects s))"
proof -
  have b: "node (nodes family 1) = Some 1" by (simp add: family_def fresh_node_def)
  from expandedSetter_records_coercion
         [OF b, of sample_host 6 "JNum 2" family "\<lambda>r. 7 - r" "\<lambda>r. r",
          THEN conjunct2, THEN conjunct2]
    family_sound
  have "\<exists>s. expandedSetter sample_host 6 1 (JNum 2) family = Returns s"
    by simp
  then obtain s where run: "expandedSetter sample_host 6 1 (JNum 2) family = Returns s"
    by blast
  from expandedSetter_records_coercion [OF b, of sample_host 6 "JNum 2" s] run
  have first: "expanded (records s 1) = Some True" by simp
  have b2: "node (nodes lazy 0) = Some 1" by (simp add: lazy_def fresh_node_def)
  have e: "eligible lazy 1"
    by (simp add: eligible_def lazy_def blank_record_def has_children_def)
  from expandedSetter_records_coercion [OF b2, of sample_host 0 JNull] e
  have "\<exists>s. expandedSetter sample_host 0 0 JNull lazy = Returns s \<and>
      expanded (records s 1) = Some False \<and> InvokeLoader 0 \<in> set (effects s)"
    by simp
  with b family_sound run first b2 e show ?thesis by blast
qed

text \<open>
  Claim C10. \<open>hold\<close> on a bound wrapper \<open>w\<close> sets the record's \<open>_held\<close> field to \<open>w\<close>
  itself, so that the manager fetches exactly \<open>w\<close> for the record and does not take it
  back; a following \<open>release\<close> resets \<open>_held\<close> to null and puts \<open>w\<close>, unbound, on the
  manager's free list.
\<close>

theorem hold_release:
  assumes "node (nodes st w) = Some r"
  shows "\<exists>st1 st2.
           hold w st = Returns (w, st1) \<and> held (records st1 r) = Some w \<and>
           poolFetch r st1 = (w, st1) \<and> poolReturn w st1 = st1 \<and>
           release w st1 = Returns (w, st2) \<and> held (records st2 r) = None \<and>
           pool st2 = w # pool st1 \<and> node (nodes st2 w) = None"
  using assms by (simp add: hold_def release_def poolFetch_def poolReturn_def)

theorem hold_release_witness:
  "node (nodes family 4) = Some 4 \<and>
   (\<exists>st1 st2.
      hold 4 family = Returns (4, st1) \<and> held (records st1 4) = Some 4 \<and>
      poolFetch 4 st1 = (4, st1) \<and> poolReturn 4 st1 = st1 \<and>
      release 4 st1 = Returns (4, st2) \<and> held (records st2 4) = None \<and>
      pool st2 = 4 # pool st1 \<and> node (nodes st2 4) = None)"
proof -
  have b: "node (nodes family 4) = Some 4" by (simp add: family_def fresh_node_def)
  from hold_release [OF b] b show ?thesis by simp
qed

end
